theory Spec2Isabelle
  imports Complex_Main "HOL-Library.Word"
begin

section \<open>Data model of CNN.cpp\<close>

text \<open>
  \<^verbatim>\<open>typedef std::vector<float_t> vec_t;\<close>
  The single-precision numbers of the source are idealised as real numbers (the
  specification, too, speaks of sequences of real numbers): rounding is not modelled.
  Every arithmetic expression keeps the shape and the order it has in the source.
\<close>

type_synonym float_t = real
type_synonym vec_t = "float_t list"

text \<open>
  A \<^verbatim>\<open>Layer*\<close> is an address or the null pointer (\<open>None\<close>); the objects live in a
  store from addresses to layers. A \<^verbatim>\<open>shared_ptr<Layer>\<close> handed to the program is
  taken to be non-null, hence an address. The fields \<open>next\<close> and \<open>values\<close> are called
  \<open>next_l\<close> and \<open>values_l\<close>, their names being reserved words of the logic's syntax;
  \<^verbatim>\<open>uint32_t\<close> sizes are 32-bit words.
\<close>

type_synonym addr = nat

record Layer =
  prev :: "addr option"
  next_l :: "addr option"
  values_l :: vec_t
  biases :: vec_t
  weights :: "vec_t list"
  in_size :: "32 word"
  out_size :: "32 word"
  weight_size :: "32 word"
  bias_size :: "32 word"

type_synonym heap = "addr \<rightharpoonup> Layer"

text \<open>
  The only exception the source throws is \<^verbatim>\<open>std::runtime_error("different sizes")\<close>,
  which is the specification's \<open>ShapeMismatch\<close>. Everything the C++ standard leaves
  undefined (\<^verbatim>\<open>operator[]\<close> out of range, a call through a null or dangling pointer)
  is the value \<open>Undefined\<close>.
\<close>

datatype error = ShapeMismatch | Undefined

fun ebind :: "error + 'a \<Rightarrow> ('a \<Rightarrow> error + 'b) \<Rightarrow> error + 'b" where
  "ebind (Inl e) f = Inl e"
| "ebind (Inr x) f = f x"

definition elem :: "'a list \<Rightarrow> nat \<Rightarrow> error + 'a" where
  "elem xs i = (if i < length xs then Inr (xs ! i) else Inl Undefined)"

definition deref :: "heap \<Rightarrow> addr \<Rightarrow> error + Layer" where
  "deref h a = (case h a of None \<Rightarrow> Inl Undefined | Some L \<Rightarrow> Inr L)"

section \<open>The free functions\<close>

definition sigmoid :: "float_t \<Rightarrow> float_t" where
  "sigmoid x = 1 / (1 + exp (- x))"

definition activation :: "float_t \<Rightarrow> float_t" where
  "activation x = sigmoid x"

text \<open>\<^verbatim>\<open>std::inner_product(first1, last1, first2, init)\<close>: \<open>acc = acc + x * y\<close>, left to right.\<close>

definition inner_product :: "vec_t \<Rightarrow> vec_t \<Rightarrow> float_t \<Rightarrow> float_t" where
  "inner_product a b init = foldl (\<lambda>acc (x, y). acc + x * y) init (zip a b)"

definition dot :: "vec_t \<Rightarrow> vec_t \<Rightarrow> error + float_t" where
  "dot a b = (if length a \<noteq> length b then Inl ShapeMismatch else Inr (inner_product a b 0))"

section \<open>Layer\<close>

text \<open>The constructor: both pointers null, \<open>values\<close> and \<open>biases\<close> resized to \<open>in_size\<close>
  (value-initialised, so zero), \<open>weights\<close> empty.\<close>

definition Layer_new :: "32 word \<Rightarrow> 32 word \<Rightarrow> 32 word \<Rightarrow> 32 word \<Rightarrow> Layer" where
  "Layer_new isz osz wsz bsz =
     \<lparr>prev = None, next_l = None,
      values_l = replicate (unat isz) 0, biases = replicate (unat isz) 0, weights = [],
      in_size = isz, out_size = osz, weight_size = wsz, bias_size = bsz\<rparr>"

text \<open>\<^verbatim>\<open>v.resize(n)\<close>: the first \<open>n\<close> elements are kept, missing ones are value-initialised.\<close>

definition resize :: "'a \<Rightarrow> nat \<Rightarrow> 'a list \<Rightarrow> 'a list" where
  "resize z n xs = take n xs @ replicate (n - length xs) z"

text \<open>
  \<open>init_weights\<close>: each call creates its own generator; \<open>dis k\<close> is the \<open>k\<close>-th number
  it draws, and the loops carry the count of the draws made so far.
\<close>

fun iw_inner :: "(nat \<Rightarrow> float_t) \<Rightarrow> nat \<Rightarrow> vec_t \<Rightarrow> nat list \<Rightarrow> error + (vec_t \<times> nat)" where
  "iw_inner dis k w [] = Inr (w, k)"
| "iw_inner dis k w (j # js) =
     (if j < length w then iw_inner dis (Suc k) (w[j := dis k]) js else Inl Undefined)"

fun iw_outer :: "(nat \<Rightarrow> float_t) \<Rightarrow> nat \<Rightarrow> nat \<Rightarrow> vec_t list \<Rightarrow> nat list \<Rightarrow> error + (vec_t list \<times> nat)" where
  "iw_outer dis k n W [] = Inr (W, k)"
| "iw_outer dis k n W (i # is) =
     ebind (elem W i) (\<lambda>w.
     ebind (iw_inner dis k (resize 0 n w) [0..<n]) (\<lambda>(w', k').
       iw_outer dis k' n (W[i := w']) is))"

definition init_weights :: "(nat \<Rightarrow> float_t) \<Rightarrow> heap \<Rightarrow> addr \<Rightarrow> error + heap" where
  "init_weights dis h this =
     ebind (deref h this) (\<lambda>T.
       if next_l T = None then Inr h
       else
         ebind (iw_outer dis 0 (unat (in_size T)) (resize [] (unat (out_size T)) (weights T))
                  [0..<unat (out_size T)]) (\<lambda>(W', k).
           Inr (h(this \<mapsto> T\<lparr>weights := W'\<rparr>))))"

text \<open>\<open>add_tail\<close>: \<^verbatim>\<open>next = layer.get(); layer->prev = this;\<close> with no check.\<close>

definition add_tail :: "heap \<Rightarrow> addr \<Rightarrow> addr \<Rightarrow> error + heap" where
  "add_tail h this layer =
     ebind (deref h this) (\<lambda>T.
       let h1 = h(this \<mapsto> T\<lparr>next_l := Some layer\<rparr>) in
       ebind (deref h1 layer) (\<lambda>L. Inr (h1(layer \<mapsto> L\<lparr>prev := Some this\<rparr>))))"

text \<open>
  The loop of \<open>forward_propogate\<close>, over the indices \<open>i\<close> still to do. Every iteration
  reads \<open>this\<close> and \<open>next\<close> from the store again, since \<open>next\<close> may be \<open>this\<close> itself.
  In \<^verbatim>\<open>dot(w, values) + next->biases[i]\<close> the call of \<open>dot\<close> is taken first.
\<close>

fun fp_loop :: "heap \<Rightarrow> addr \<Rightarrow> addr \<Rightarrow> nat list \<Rightarrow> error + heap" where
  "fp_loop h this nx [] = Inr h"
| "fp_loop h this nx (i # is) =
     ebind (deref h this) (\<lambda>T.
     ebind (elem (weights T) i) (\<lambda>w.
     ebind (dot w (values_l T)) (\<lambda>d0.
     ebind (deref h nx) (\<lambda>N.
     ebind (elem (biases N) i) (\<lambda>b.
       if i < length (values_l N)
       then fp_loop (h(nx \<mapsto> N\<lparr>values_l := (values_l N)[i := activation (d0 + b)]\<rparr>)) this nx is
       else Inl Undefined)))))"

text \<open>
  The body of \<open>forward_propogate\<close> up to its tail call: \<open>None\<close> when it returns at once
  (no successor), else the store after the loop and the layer the call recurses on.
\<close>

definition forward_propogate_body :: "heap \<Rightarrow> addr \<Rightarrow> error + (heap \<times> addr) option" where
  "forward_propogate_body h this =
     ebind (deref h this) (\<lambda>T.
       case next_l T of
         None \<Rightarrow> Inr None
       | Some nx \<Rightarrow>
           ebind (fp_loop h this nx [0..<unat (out_size T)]) (\<lambda>h'. Inr (Some (h', nx))))"

text \<open>The recursion follows \<open>next\<close> pointers and need not end (a cyclic chain): the first
  argument bounds the number of calls, and \<open>None\<close> is "has not returned".\<close>

fun Layer_forward_propogate :: "nat \<Rightarrow> heap \<Rightarrow> addr \<Rightarrow> (error + heap) option" where
  "Layer_forward_propogate 0 h this = None"
| "Layer_forward_propogate (Suc n) h this =
     (case forward_propogate_body h this of
        Inl e \<Rightarrow> Some (Inl e)
      | Inr None \<Rightarrow> Some (Inr h)
      | Inr (Some (h', nx)) \<Rightarrow> Layer_forward_propogate n h' nx)"

text \<open>
  The inner loop of \<open>back_propogate\<close> for row \<open>w = prev->weights[i]\<close>, over the indices
  \<open>j\<close> still to do: the weight is written first, and the entry of \<open>prev_delta\<close> is then
  computed from the weight just written. \<open>pv\<close> is \<open>prev->values\<close> (not written by the loops).
\<close>

fun bp_inner :: "vec_t \<Rightarrow> nat \<Rightarrow> vec_t \<Rightarrow> vec_t \<Rightarrow> vec_t \<Rightarrow> nat list \<Rightarrow> error + (vec_t \<times> vec_t)" where
  "bp_inner delta i pv w pd [] = Inr (w, pd)"
| "bp_inner delta i pv w pd (j # js) =
     ebind (elem w j) (\<lambda>wj.
     ebind (elem delta i) (\<lambda>di.
     ebind (elem pv j) (\<lambda>v.
       let w' = w[j := wj + (1 / 10 * di * v)] in
       ebind (elem w' j) (\<lambda>wj'.
         if j < length pd
         then bp_inner delta i pv w' (pd[j := v * (1 - v) * wj' * di]) js
         else Inl Undefined))))"

fun bp_outer :: "vec_t \<Rightarrow> vec_t \<Rightarrow> vec_t list \<Rightarrow> vec_t \<Rightarrow> nat list \<Rightarrow> error + (vec_t list \<times> vec_t)" where
  "bp_outer delta pv W pd [] = Inr (W, pd)"
| "bp_outer delta pv W pd (i # is) =
     ebind (elem W i) (\<lambda>w.
     ebind (bp_inner delta i pv w pd [0..<length w]) (\<lambda>(w', pd').
       bp_outer delta pv (W[i := w']) pd' is))"

text \<open>
  The body of \<open>back_propogate\<close> up to its tail call: \<open>None\<close> when it returns at once (no
  predecessor), else the store with the predecessor's new weights, the predecessor, and
  the \<open>prev_delta\<close> handed to the recursive call.
\<close>

definition back_propogate_body :: "heap \<Rightarrow> addr \<Rightarrow> vec_t \<Rightarrow> error + (heap \<times> addr \<times> vec_t) option" where
  "back_propogate_body h this delta =
     ebind (deref h this) (\<lambda>T.
       case prev T of
         None \<Rightarrow> Inr None
       | Some p \<Rightarrow>
           ebind (deref h p) (\<lambda>P.
           ebind (bp_outer delta (values_l P) (weights P) (replicate (unat (in_size P)) 0)
                    [0..<unat (in_size T)]) (\<lambda>(W', pd).
             Inr (Some (h(p \<mapsto> P\<lparr>weights := W'\<rparr>), p, pd)))))"

fun Layer_back_propogate :: "nat \<Rightarrow> heap \<Rightarrow> addr \<Rightarrow> vec_t \<Rightarrow> (error + heap) option" where
  "Layer_back_propogate 0 h this delta = None"
| "Layer_back_propogate (Suc n) h this delta =
     (case back_propogate_body h this delta of
        Inl e \<Rightarrow> Some (Inl e)
      | Inr None \<Rightarrow> Some (Inr h)
      | Inr (Some (h', p, pd)) \<Rightarrow> Layer_back_propogate n h' p pd)"

section \<open>CNN\<close>

record CNN =
  layers :: "addr list"

definition CNN_empty :: "CNN \<Rightarrow> bool" where
  "CNN_empty c = (length (layers c) = 0)"

definition head :: "CNN \<Rightarrow> addr option" where
  "head c = (if CNN_empty c then None else Some (layers c ! 0))"

definition tail :: "CNN \<Rightarrow> addr option" where
  "tail c = (if CNN_empty c then None else Some (layers c ! (length (layers c) - 1)))"

definition CNN_forward_propogate :: "nat \<Rightarrow> heap \<Rightarrow> CNN \<Rightarrow> (error + heap) option" where
  "CNN_forward_propogate n h c =
     (case head c of None \<Rightarrow> Some (Inl Undefined) | Some a \<Rightarrow> Layer_forward_propogate n h a)"

text \<open>The loop of \<open>CNN::back_propogate\<close> that fills \<open>delta\<close>; \<open>vs\<close> is \<open>tail()->values\<close>.\<close>

fun delta_loop :: "vec_t \<Rightarrow> vec_t \<Rightarrow> vec_t \<Rightarrow> nat list \<Rightarrow> error + vec_t" where
  "delta_loop vs labels delta [] = Inr delta"
| "delta_loop vs labels delta (i # is) =
     ebind (elem vs i) (\<lambda>v.
     ebind (elem labels i) (\<lambda>l.
       if i < length delta
       then delta_loop vs labels (delta[i := v * (1 - v) * (l - v)]) is
       else Inl Undefined))"

definition CNN_back_propogate :: "nat \<Rightarrow> heap \<Rightarrow> CNN \<Rightarrow> vec_t \<Rightarrow> (error + heap) option" where
  "CNN_back_propogate n h c labels =
     (case tail c of
        None \<Rightarrow> Some (Inl Undefined)
      | Some t \<Rightarrow>
          (case ebind (deref h t) (\<lambda>T.
                  delta_loop (values_l T) labels (replicate (unat (in_size T)) 0)
                    [0..<unat (in_size T)]) of
             Inl e \<Rightarrow> Some (Inl e)
           | Inr delta \<Rightarrow> Layer_back_propogate n h t delta))"

text \<open>\<open>init\<close>: \<open>init_weights\<close> on every layer in order; \<open>diss k\<close> is the generator of the
  \<open>k\<close>-th call.\<close>

fun init_loop :: "(nat \<Rightarrow> nat \<Rightarrow> float_t) \<Rightarrow> nat \<Rightarrow> heap \<Rightarrow> addr list \<Rightarrow> error + heap" where
  "init_loop diss k h [] = Inr h"
| "init_loop diss k h (a # as) = ebind (init_weights (diss k) h a) (\<lambda>h'. init_loop diss (Suc k) h' as)"

definition CNN_init :: "(nat \<Rightarrow> nat \<Rightarrow> float_t) \<Rightarrow> heap \<Rightarrow> CNN \<Rightarrow> error + heap" where
  "CNN_init diss h c = init_loop diss 0 h (layers c)"

definition get_output :: "heap \<Rightarrow> CNN \<Rightarrow> error + vec_t" where
  "get_output h c =
     (case tail c of None \<Rightarrow> Inl Undefined | Some t \<Rightarrow> ebind (deref h t) (\<lambda>T. Inr (values_l T)))"

definition CNN_add :: "heap \<Rightarrow> CNN \<Rightarrow> addr \<Rightarrow> error + (heap \<times> CNN)" where
  "CNN_add h c layer =
     ebind (case tail c of None \<Rightarrow> Inr h | Some t \<Rightarrow> add_tail h t layer) (\<lambda>h'.
       Inr (h', c\<lparr>layers := layers c @ [layer]\<rparr>))"

text \<open>A sequence of calls of \<open>add\<close>, one per element of the list, in order.\<close>

fun add_all :: "heap \<Rightarrow> CNN \<Rightarrow> addr list \<Rightarrow> error + (heap \<times> CNN)" where
  "add_all h c [] = Inr (h, c)"
| "add_all h c (a # as) = ebind (CNN_add h c a) (\<lambda>(h', c'). add_all h' c' as)"

section \<open>Notions of the specification\<close>

text \<open>
  The shape invariant of the data model (specification, section 3): every layer's
  activation vector has \<open>in_size\<close> entries and, for every adjacent pair, the successor's
  activation vector has \<open>out_size\<close> entries and the weight matrix has \<open>out_size\<close> rows of
  \<open>in_size\<close> entries each.
\<close>

definition shape_invariant :: "heap \<Rightarrow> bool" where
  "shape_invariant h \<longleftrightarrow>
     (\<forall>a L. h a = Some L \<longrightarrow>
        length (values_l L) = unat (in_size L) \<and>
        (\<forall>nx. next_l L = Some nx \<longrightarrow>
           (\<exists>N. h nx = Some N \<and> length (values_l N) = unat (out_size L)) \<and>
           length (weights L) = unat (out_size L) \<and>
           (\<forall>w\<in>set (weights L). length w = unat (in_size L))))"

text \<open>
  The adjacency chain traversed from \<open>a\<close> to \<open>t\<close> (specification, section 8): the
  layers met by following \<open>next\<close> pointers from \<open>a\<close> until \<open>t\<close> is reached. The first
  argument bounds the number of layers visited; \<open>None\<close> when \<open>t\<close> is not reached.
\<close>

fun chain :: "nat \<Rightarrow> heap \<Rightarrow> addr \<Rightarrow> addr \<Rightarrow> addr list option" where
  "chain 0 h a t = None"
| "chain (Suc n) h a t =
     (if a = t then Some [a]
      else case h a of
             None \<Rightarrow> None
           | Some L \<Rightarrow> (case next_l L of None \<Rightarrow> None | Some b \<Rightarrow> map_option (Cons a) (chain n h b t)))"

section \<open>Concrete networks\<close>

text \<open>
  A network of two layers, 1 input neuron and 2 output neurons, with zero weights and
  the input \<open>1/2\<close>: \<open>ex_heap0\<close> before the forward pass, \<open>ex_heap\<close> after it
  (both outputs are \<open>sigmoid 0 = 1/2\<close>).
\<close>

definition ex_in :: Layer where
  "ex_in = (Layer_new 1 2 0 0)\<lparr>next_l := Some 1, values_l := [1 / 2], weights := [[0], [0]]\<rparr>"

definition ex_out0 :: Layer where
  "ex_out0 = (Layer_new 2 1 0 0)\<lparr>prev := Some 0\<rparr>"

definition ex_out :: Layer where
  "ex_out = ex_out0\<lparr>values_l := [1 / 2, 1 / 2]\<rparr>"

definition ex_heap0 :: heap where
  "ex_heap0 = [0 \<mapsto> ex_in, 1 \<mapsto> ex_out0]"

definition ex_heap :: heap where
  "ex_heap = [0 \<mapsto> ex_in, 1 \<mapsto> ex_out]"

definition ex_net :: CNN where
  "ex_net = \<lparr>layers = [0, 1]\<rparr>"

text \<open>A network of two layers of one neuron each, whose first layer carries the bias
  \<open>1\<close> and whose second layer carries the bias \<open>0\<close>.\<close>

definition cex_bias_in :: Layer where
  "cex_bias_in = (Layer_new 1 1 0 0)\<lparr>next_l := Some 1, biases := [1], weights := [[0]]\<rparr>"

definition cex_bias_out :: Layer where
  "cex_bias_out = (Layer_new 1 1 0 0)\<lparr>prev := Some 0\<rparr>"

definition cex_bias_heap :: heap where
  "cex_bias_heap = [0 \<mapsto> cex_bias_in, 1 \<mapsto> cex_bias_out]"

text \<open>\<open>ex_heap\<close> after \<open>back_propogate\<close> on its output layer with \<open>delta = [1, 2]\<close>, and
  after \<open>CNN::back_propogate\<close> with the labels \<open>[1, 0]\<close>.\<close>

definition ex_trained :: heap where
  "ex_trained = ex_heap(0 \<mapsto> ex_in\<lparr>weights := [[1 / 20], [1 / 10]]\<rparr>)"

definition cex_labels_trained :: heap where
  "cex_labels_trained = ex_heap(0 \<mapsto> ex_in\<lparr>weights := [[1 / 160], [- 1 / 160]]\<rparr>)"

text \<open>\<open>ex_heap\<close> with a third, unconnected layer at address 2.\<close>

definition cex_topology_heap :: heap where
  "cex_topology_heap = ex_heap(2 \<mapsto> Layer_new 2 1 0 0)"

text \<open>The three layers of \<open>main\<close>, just constructed and not yet added to a network.\<close>

definition fresh_heap :: heap where
  "fresh_heap = [0 \<mapsto> Layer_new 2 4 0 0, 1 \<mapsto> Layer_new 4 1 0 0, 2 \<mapsto> Layer_new 1 1 0 0]"

section \<open>The loops in closed form\<close>
lemma deref_Some: "h a = Some L \<Longrightarrow> deref h a = Inr L"
  by (simp add: deref_def)

lemma elem_less: "i < length xs \<Longrightarrow> elem xs i = Inr (xs ! i)"
  by (simp add: elem_def)

lemma fold_update_upt:
  "n \<le> length vs \<Longrightarrow> fold (\<lambda>i xs. xs[i := f i]) [0..<n] vs = map f [0..<n] @ drop n vs"
proof (induction n)
  case 0
  then show ?case by simp
next
  case (Suc n)
  then have "n < length vs" by simp
  then have "drop n vs = vs ! n # drop (Suc n) vs"
    by (simp add: Cons_nth_drop_Suc)
  with Suc show ?case
    by (simp add: list_update_append)
qed

lemma delta_loop_fold:
  "\<forall>i\<in>set is. i < length vs \<and> i < length labels \<and> i < length delta \<Longrightarrow>
   delta_loop vs labels delta is =
     Inr (fold (\<lambda>i d. d[i := vs ! i * (1 - vs ! i) * (labels ! i - vs ! i)]) is delta)"
  by (induction "is" arbitrary: delta) (simp_all add: elem_less)

lemma bp_inner_nth:
  assumes "distinct js" "\<forall>j\<in>set js. j < length w" "length w \<le> length pv"
    "length w \<le> length pd" "i < length delta"
  shows "\<exists>w' pd'. bp_inner delta i pv w pd js = Inr (w', pd') \<and>
      length w' = length w \<and> length pd' = length pd \<and>
      (\<forall>j<length w. w' ! j =
         (if j \<in> set js then w ! j + (1 / 10 * delta ! i * pv ! j) else w ! j)) \<and>
      (\<forall>j<length pd. pd' ! j =
         (if j \<in> set js
          then pv ! j * (1 - pv ! j) * (w ! j + (1 / 10 * delta ! i * pv ! j)) * delta ! i
          else pd ! j))"
  using assms
proof (induction js arbitrary: w pd)
  case Nil
  then show ?case by simp
next
  case (Cons j js)
  let ?w = "w[j := w ! j + (1 / 10 * delta ! i * pv ! j)]"
  let ?pd = "pd[j := pv ! j * (1 - pv ! j) * (w ! j + (1 / 10 * delta ! i * pv ! j)) * delta ! i]"
  from Cons.prems have j: "j < length w" "j < length pv" "j < length pd" "j \<notin> set js"
    by auto
  have step: "bp_inner delta i pv w pd (j # js) = bp_inner delta i pv ?w ?pd js"
    using j Cons.prems(5) by (simp add: elem_less Let_def)
  have "\<exists>w' pd'. bp_inner delta i pv ?w ?pd js = Inr (w', pd') \<and>
      length w' = length ?w \<and> length pd' = length ?pd \<and>
      (\<forall>j<length ?w. w' ! j =
         (if j \<in> set js then ?w ! j + (1 / 10 * delta ! i * pv ! j) else ?w ! j)) \<and>
      (\<forall>j<length ?pd. pd' ! j =
         (if j \<in> set js
          then pv ! j * (1 - pv ! j) * (?w ! j + (1 / 10 * delta ! i * pv ! j)) * delta ! i
          else ?pd ! j))"
    using Cons.prems by (intro Cons.IH) auto
  then obtain w' pd' where r: "bp_inner delta i pv ?w ?pd js = Inr (w', pd')"
      "length w' = length w" "length pd' = length pd"
      "\<forall>j<length w. w' ! j =
         (if j \<in> set js then ?w ! j + (1 / 10 * delta ! i * pv ! j) else ?w ! j)"
      "\<forall>j<length pd. pd' ! j =
         (if j \<in> set js
          then pv ! j * (1 - pv ! j) * (?w ! j + (1 / 10 * delta ! i * pv ! j)) * delta ! i
          else ?pd ! j)"
    by auto
  have w: "\<forall>k<length w. w' ! k =
         (if k \<in> set (j # js) then w ! k + (1 / 10 * delta ! i * pv ! k) else w ! k)"
    using r(4) j by (auto simp: nth_list_update)
  have pd: "\<forall>k<length pd. pd' ! k =
         (if k \<in> set (j # js)
          then pv ! k * (1 - pv ! k) * (w ! k + (1 / 10 * delta ! i * pv ! k)) * delta ! i
          else pd ! k)"
    using r(5) j by (auto simp: nth_list_update)
  show ?case
    using step r(1,2,3) w pd by simp
qed

lemma bp_inner_row:
  assumes "length w \<le> length pv" "length w \<le> length pd" "i < length delta"
  shows "bp_inner delta i pv w pd [0..<length w] =
      Inr (map (\<lambda>j. w ! j + (1 / 10 * delta ! i * pv ! j)) [0..<length w],
           map (\<lambda>j. pv ! j * (1 - pv ! j) * (w ! j + (1 / 10 * delta ! i * pv ! j)) * delta ! i)
             [0..<length w] @ drop (length w) pd)"
proof -
  obtain w' pd' where r: "bp_inner delta i pv w pd [0..<length w] = Inr (w', pd')"
      "length w' = length w" "length pd' = length pd"
      "\<forall>j<length w. w' ! j =
         (if j \<in> set [0..<length w] then w ! j + (1 / 10 * delta ! i * pv ! j) else w ! j)"
      "\<forall>j<length pd. pd' ! j =
         (if j \<in> set [0..<length w]
          then pv ! j * (1 - pv ! j) * (w ! j + (1 / 10 * delta ! i * pv ! j)) * delta ! i
          else pd ! j)"
    using bp_inner_nth [of "[0..<length w]" w pv pd i delta] assms by auto
  have "w' = map (\<lambda>j. w ! j + (1 / 10 * delta ! i * pv ! j)) [0..<length w]"
    using r(2,4) by (intro nth_equalityI) auto
  moreover have "pd' = map (\<lambda>j. pv ! j * (1 - pv ! j) * (w ! j + (1 / 10 * delta ! i * pv ! j)) * delta ! i)
             [0..<length w] @ drop (length w) pd"
    using r(3,5) assms(2) by (intro nth_equalityI) (auto simp: nth_append)
  ultimately show ?thesis using r(1) by simp
qed

lemma bp_outer_nth:
  assumes "distinct is"
    "\<forall>i\<in>set is. i < length W \<and> length (W ! i) = m \<and> i < length delta"
    "m \<le> length pv" "m \<le> length pd"
  shows "\<exists>W' pd'. bp_outer delta pv W pd is = Inr (W', pd') \<and>
      length W' = length W \<and>
      (\<forall>k<length W. W' ! k =
         (if k \<in> set is then map (\<lambda>j. W ! k ! j + (1 / 10 * delta ! k * pv ! j)) [0..<m]
          else W ! k)) \<and>
      pd' = (if is = [] then pd
             else map (\<lambda>j. pv ! j * (1 - pv ! j) *
                        (W ! last is ! j + (1 / 10 * delta ! last is * pv ! j)) * delta ! last is)
                    [0..<m] @ drop m pd)"
  using assms
proof (induction "is" arbitrary: W pd)
  case Nil
  then show ?case by simp
next
  case (Cons i "is")
  let ?w = "map (\<lambda>j. W ! i ! j + (1 / 10 * delta ! i * pv ! j)) [0..<m]"
  let ?pd = "map (\<lambda>j. pv ! j * (1 - pv ! j) * (W ! i ! j + (1 / 10 * delta ! i * pv ! j)) * delta ! i)
             [0..<m] @ drop m pd"
  let ?W = "W[i := ?w]"
  from Cons.prems have i: "i < length W" "length (W ! i) = m" "i < length delta" "i \<notin> set is"
    by auto
  have inner: "bp_inner delta i pv (W ! i) pd [0..<length (W ! i)] = Inr (?w, ?pd)"
    using bp_inner_row [of "W ! i" pv pd i delta] i Cons.prems(3,4) by simp
  have step: "bp_outer delta pv W pd (i # is) = bp_outer delta pv ?W ?pd is"
    using i(1) inner by (simp add: elem_less)
  have pre: "\<forall>k\<in>set is. k < length ?W \<and> length (?W ! k) = m \<and> k < length delta"
    using Cons.prems(2) i(4) by (auto simp: nth_list_update)
  have len: "m \<le> length ?pd"
    using Cons.prems(4) by simp
  have "distinct is" using Cons.prems(1) by simp
  from Cons.IH [OF this pre Cons.prems(3) len]
  obtain W' pd' where r: "bp_outer delta pv ?W ?pd is = Inr (W', pd')"
      "length W' = length W"
      "\<forall>k<length W. W' ! k =
         (if k \<in> set is then map (\<lambda>j. ?W ! k ! j + (1 / 10 * delta ! k * pv ! j)) [0..<m]
          else ?W ! k)"
      "pd' = (if is = [] then ?pd
             else map (\<lambda>j. pv ! j * (1 - pv ! j) *
                        (?W ! last is ! j + (1 / 10 * delta ! last is * pv ! j)) * delta ! last is)
                    [0..<m] @ drop m ?pd)"
    by auto
  have W: "\<forall>k<length W. W' ! k =
         (if k \<in> set (i # is) then map (\<lambda>j. W ! k ! j + (1 / 10 * delta ! k * pv ! j)) [0..<m]
          else W ! k)"
    using r(3) i by (auto simp: nth_list_update)
  have pd: "pd' = map (\<lambda>j. pv ! j * (1 - pv ! j) *
                        (W ! last (i # is) ! j + (1 / 10 * delta ! last (i # is) * pv ! j)) *
                        delta ! last (i # is)) [0..<m] @ drop m pd"
  proof (cases "is = []")
    case True
    then show ?thesis using r(4) by simp
  next
    case False
    then have "last is \<noteq> i"
      using i(4) last_in_set by metis
    then have "?W ! last is = W ! last is"
      by simp
    then show ?thesis
      using r(4) False by simp
  qed
  show ?case
    using step r(1,2) W pd by simp
qed

lemma bp_outer_upt:
  assumes "n \<le> length W" "\<forall>i<n. length (W ! i) = m" "n \<le> length delta"
    "m \<le> length pv"
  shows "\<exists>W' pd. bp_outer delta pv W (replicate m 0) [0..<n] = Inr (W', pd) \<and>
      length W' = length W \<and>
      (\<forall>k<length W. W' ! k =
         (if k < n then map (\<lambda>j. W ! k ! j + (1 / 10 * delta ! k * pv ! j)) [0..<m]
          else W ! k)) \<and>
      pd = (if n = 0 then replicate m 0
             else map (\<lambda>j. pv ! j * (1 - pv ! j) *
                        (W ! (n - 1) ! j + (1 / 10 * delta ! (n - 1) * pv ! j)) * delta ! (n - 1))
                    [0..<m])"
proof -
  have l: "n \<noteq> 0 \<Longrightarrow> last [0..<n] = n - 1"
    by (cases n) simp_all
  show ?thesis
    using bp_outer_nth [of "[0..<n]" W m delta pv "replicate m 0"] assms l
    by auto
qed

lemma back_propogate_body_shape:
  assumes "h this = Some T" "prev T = Some p" "h p = Some P"
    "unat (in_size T) \<le> length (weights P)"
    "\<forall>i<unat (in_size T). length (weights P ! i) = unat (in_size P)"
    "unat (in_size P) \<le> length (values_l P)"
    "unat (in_size T) \<le> length delta"
  shows "\<exists>W' pd.
     back_propogate_body h this delta = Inr (Some (h(p \<mapsto> P\<lparr>weights := W'\<rparr>), p, pd)) \<and>
     length W' = length (weights P) \<and>
     (\<forall>k<length (weights P). W' ! k =
         (if k < unat (in_size T)
          then map (\<lambda>j. weights P ! k ! j + (1 / 10 * delta ! k * values_l P ! j))
                 [0..<unat (in_size P)]
          else weights P ! k)) \<and>
      pd = (if unat (in_size T) = 0 then replicate (unat (in_size P)) 0
            else map (\<lambda>j. values_l P ! j * (1 - values_l P ! j) *
                        (weights P ! (unat (in_size T) - 1) ! j +
                           (1 / 10 * delta ! (unat (in_size T) - 1) * values_l P ! j)) *
                        delta ! (unat (in_size T) - 1))
                    [0..<unat (in_size P)])"
proof -
  from bp_outer_upt [OF assms(4,5,7,6)]
  obtain W' pd where r:
    "bp_outer delta (values_l P) (weights P) (replicate (unat (in_size P)) 0)
       [0..<unat (in_size T)] = Inr (W', pd)"
    "length W' = length (weights P)"
    "\<forall>k<length (weights P). W' ! k =
         (if k < unat (in_size T)
          then map (\<lambda>j. weights P ! k ! j + (1 / 10 * delta ! k * values_l P ! j))
                 [0..<unat (in_size P)]
          else weights P ! k)"
    "pd = (if unat (in_size T) = 0 then replicate (unat (in_size P)) 0
            else map (\<lambda>j. values_l P ! j * (1 - values_l P ! j) *
                        (weights P ! (unat (in_size T) - 1) ! j +
                           (1 / 10 * delta ! (unat (in_size T) - 1) * values_l P ! j)) *
                        delta ! (unat (in_size T) - 1))
                    [0..<unat (in_size P)])"
    by blast
  have "back_propogate_body h this delta = Inr (Some (h(p \<mapsto> P\<lparr>weights := W'\<rparr>), p, pd))"
    using assms(1,2,3) r(1) by (simp add: back_propogate_body_def deref_Some)
  then show ?thesis
    using r(2,3,4) by blast
qed

text \<open>
  Claim C2. For a layer \<open>this\<close> with a predecessor \<open>p\<close> (shapes as in the data model:
  the predecessor's weight rows \<open>0 .. in_size - 1\<close> exist and have \<open>prev.in_size\<close> entries,
  \<open>prev.values\<close> and \<open>delta\<close> are long enough), \<open>back_propogate\<close> updates every weight
  \<open>prev.weights[i][j]\<close> with \<open>i < in_size\<close>, \<open>j < prev.in_size\<close> to
  \<open>prev.weights[i][j] + 0.1 * delta[i] * prev.values[j]\<close>, leaves the other rows alone,
  and recurses on the predecessor with a \<open>prev_delta\<close> whose entry \<open>j\<close> is
  \<open>prev.values[j] * (1 - prev.values[j]) * W'[i][j] * delta[i]\<close> for the \<open>i\<close> of the last
  iteration, where \<open>W'\<close> is the weight matrix after the update: the weight just written
  is the one that is read.
\<close>
theorem back_propogate_step:
  assumes "h this = Some T" "prev T = Some p" "h p = Some P"
    "unat (in_size T) \<le> length (weights P)"
    "\<forall>i<unat (in_size T). length (weights P ! i) = unat (in_size P)"
    "unat (in_size P) \<le> length (values_l P)"
    "unat (in_size T) \<le> length delta"
  shows "\<exists>W' pd.
     back_propogate_body h this delta = Inr (Some (h(p \<mapsto> P\<lparr>weights := W'\<rparr>), p, pd)) \<and>
     Layer_back_propogate (Suc n) h this delta =
       Layer_back_propogate n (h(p \<mapsto> P\<lparr>weights := W'\<rparr>)) p pd \<and>
     length W' = length (weights P) \<and>
     (\<forall>i<unat (in_size T). length (W' ! i) = unat (in_size P) \<and>
        (\<forall>j<unat (in_size P).
           W' ! i ! j = weights P ! i ! j + (1 / 10 * delta ! i * values_l P ! j))) \<and>
     (\<forall>i<length (weights P). unat (in_size T) \<le> i \<longrightarrow> W' ! i = weights P ! i) \<and>
     length pd = unat (in_size P) \<and>
     (\<forall>j<unat (in_size P).
        pd ! j = (if unat (in_size T) = 0 then 0
                  else values_l P ! j * (1 - values_l P ! j) *
                         W' ! (unat (in_size T) - 1) ! j * delta ! (unat (in_size T) - 1)))"
proof -
  from back_propogate_body_shape [OF assms]
  obtain W' pd where r:
    "back_propogate_body h this delta = Inr (Some (h(p \<mapsto> P\<lparr>weights := W'\<rparr>), p, pd))"
    "length W' = length (weights P)"
    "\<forall>k<length (weights P). W' ! k =
         (if k < unat (in_size T)
          then map (\<lambda>j. weights P ! k ! j + (1 / 10 * delta ! k * values_l P ! j))
                 [0..<unat (in_size P)]
          else weights P ! k)"
    "pd = (if unat (in_size T) = 0 then replicate (unat (in_size P)) 0
            else map (\<lambda>j. values_l P ! j * (1 - values_l P ! j) *
                        (weights P ! (unat (in_size T) - 1) ! j +
                           (1 / 10 * delta ! (unat (in_size T) - 1) * values_l P ! j)) *
                        delta ! (unat (in_size T) - 1))
                    [0..<unat (in_size P)])"
    by blast
  have rec: "Layer_back_propogate (Suc n) h this delta =
       Layer_back_propogate n (h(p \<mapsto> P\<lparr>weights := W'\<rparr>)) p pd"
    using r(1) by simp
  have rows: "\<forall>i<unat (in_size T). length (W' ! i) = unat (in_size P) \<and>
        (\<forall>j<unat (in_size P).
           W' ! i ! j = weights P ! i ! j + (1 / 10 * delta ! i * values_l P ! j))"
    using r(3) assms(4) by simp
  have rest: "\<forall>i<length (weights P). unat (in_size T) \<le> i \<longrightarrow> W' ! i = weights P ! i"
    using r(3) by simp
  have len: "length pd = unat (in_size P)"
    using r(4) by simp
  have pd: "\<forall>j<unat (in_size P).
        pd ! j = (if unat (in_size T) = 0 then 0
                  else values_l P ! j * (1 - values_l P ! j) *
                         W' ! (unat (in_size T) - 1) ! j * delta ! (unat (in_size T) - 1))"
  proof (cases "unat (in_size T) = 0")
    case True
    then show ?thesis using r(4) by simp
  next
    case False
    then have "unat (in_size T) - 1 < unat (in_size T)" by simp
    with rows have "\<forall>j<unat (in_size P). W' ! (unat (in_size T) - 1) ! j =
        weights P ! (unat (in_size T) - 1) ! j +
          (1 / 10 * delta ! (unat (in_size T) - 1) * values_l P ! j)"
      by blast
    then show ?thesis using r(4) False by simp
  qed
  show ?thesis
    using r(1) rec r(2) rows rest len pd by blast
qed

lemma ebind_eq_Inl: "ebind m f = Inl e \<longleftrightarrow> m = Inl e \<or> (\<exists>x. m = Inr x \<and> f x = Inl e)"
  by (cases m) simp_all

lemma ebind_eq_Inr: "ebind m f = Inr y \<longleftrightarrow> (\<exists>x. m = Inr x \<and> f x = Inr y)"
  by (cases m) simp_all

lemma elem_not_mismatch: "elem xs i \<noteq> Inl ShapeMismatch"
  by (simp add: elem_def)

lemma deref_not_mismatch: "deref h a \<noteq> Inl ShapeMismatch"
  by (simp add: deref_def split: option.splits)

lemma deref_eq_Inr: "deref h a = Inr L \<longleftrightarrow> h a = Some L"
  by (simp add: deref_def split: option.splits)

lemma bp_inner_not_mismatch: "bp_inner delta i pv w pd js \<noteq> Inl ShapeMismatch"
  by (induction js arbitrary: w pd)
    (auto simp: ebind_eq_Inl elem_not_mismatch Let_def)

lemma bp_outer_not_mismatch: "bp_outer delta pv W pd is \<noteq> Inl ShapeMismatch"
  by (induction "is" arbitrary: W pd)
    (auto simp: ebind_eq_Inl elem_not_mismatch bp_inner_not_mismatch)

lemma back_propogate_body_not_mismatch: "back_propogate_body h this delta \<noteq> Inl ShapeMismatch"
  by (auto simp: back_propogate_body_def ebind_eq_Inl deref_not_mismatch bp_outer_not_mismatch
      split: option.splits)

lemma Layer_back_propogate_not_mismatch:
  "Layer_back_propogate n h this delta \<noteq> Some (Inl ShapeMismatch)"
  by (induction n arbitrary: h this delta)
    (auto simp: back_propogate_body_not_mismatch split: sum.splits option.splits)

lemma delta_loop_not_mismatch: "delta_loop vs labels delta is \<noteq> Inl ShapeMismatch"
  by (induction "is" arbitrary: delta) (auto simp: ebind_eq_Inl elem_not_mismatch)

lemma CNN_back_propogate_not_mismatch:
  "CNN_back_propogate n h c labels \<noteq> Some (Inl ShapeMismatch)"
  by (auto simp: CNN_back_propogate_def ebind_eq_Inl deref_not_mismatch delta_loop_not_mismatch
      Layer_back_propogate_not_mismatch split: option.splits sum.splits)

lemma delta_loop_take:
  "\<forall>i\<in>set is. i < k \<Longrightarrow> k \<le> length labels \<Longrightarrow>
   delta_loop vs (take k labels) delta is = delta_loop vs labels delta is"
  by (induction "is" arbitrary: delta) (simp_all add: elem_def)

lemma tail_last: "layers c \<noteq> [] \<Longrightarrow> tail c = Some (last (layers c))"
  by (simp add: tail_def CNN_empty_def last_conv_nth)

lemma head_hd: "layers c \<noteq> [] \<Longrightarrow> head c = Some (hd (layers c))"
  by (simp add: head_def CNN_empty_def hd_conv_nth)

section \<open>The backward pass of the network\<close>

text \<open>
  Claim C3. For a non-empty network whose tail layer \<open>T\<close> holds an activation vector of
  at least \<open>in_size\<close> entries, and labels of length \<open>in_size\<close>, \<open>CNN::back_propogate\<close> is
  \<open>back_propogate\<close> on the tail layer with the vector
  \<open>delta[i] = values[i] * (1 - values[i]) * (labels[i] - values[i])\<close>, \<open>i < in_size\<close>.
\<close>
theorem CNN_back_propogate_initial_delta:
  assumes "layers c \<noteq> []" "h (last (layers c)) = Some T"
    "length labels = unat (in_size T)" "unat (in_size T) \<le> length (values_l T)"
  shows "CNN_back_propogate n h c labels =
     Layer_back_propogate n h (last (layers c))
       (map (\<lambda>i. values_l T ! i * (1 - values_l T ! i) * (labels ! i - values_l T ! i))
          [0..<unat (in_size T)])"
proof -
  have "delta_loop (values_l T) labels (replicate (unat (in_size T)) 0) [0..<unat (in_size T)] =
      Inr (map (\<lambda>i. values_l T ! i * (1 - values_l T ! i) * (labels ! i - values_l T ! i))
          [0..<unat (in_size T)])"
    using assms(3,4) by (simp add: delta_loop_fold fold_update_upt)
  then show ?thesis
    using assms(1,2) by (simp add: CNN_back_propogate_def tail_last deref_Some)
qed

text \<open>
  Claim C4, in the form the code satisfies. \<open>CNN::back_propogate\<close> compares no lengths
  and never throws \<open>ShapeMismatch\<close> (nothing on the backward path calls \<open>dot\<close>). When
  there are at least as many labels as the tail layer has neurons, the surplus labels are
  ignored: the run is the run on the first \<open>in_size\<close> labels, weight updates included.
\<close>
theorem CNN_back_propogate_no_length_check:
  "CNN_back_propogate n h c labels \<noteq> Some (Inl ShapeMismatch) \<and>
   (tail c = Some t \<and> h t = Some T \<and> unat (in_size T) \<le> length labels \<longrightarrow>
      CNN_back_propogate n h c labels =
        CNN_back_propogate n h c (take (unat (in_size T)) labels))"
proof (intro conjI impI)
  show "CNN_back_propogate n h c labels \<noteq> Some (Inl ShapeMismatch)"
    by (rule CNN_back_propogate_not_mismatch)
next
  assume "tail c = Some t \<and> h t = Some T \<and> unat (in_size T) \<le> length labels"
  then show "CNN_back_propogate n h c labels =
        CNN_back_propogate n h c (take (unat (in_size T)) labels)"
    by (simp add: CNN_back_propogate_def deref_Some delta_loop_take)
qed

lemma back_propogate_body_biases:
  "back_propogate_body h this delta = Inr (Some (h', p, pd)) \<Longrightarrow>
   map_option biases (h' a) = map_option biases (h a)"
  by (auto simp: back_propogate_body_def ebind_eq_Inr deref_eq_Inr split: option.splits)

lemma Layer_back_propogate_biases:
  "Layer_back_propogate n h this delta = Some (Inr h') \<Longrightarrow>
   map_option biases (h' a) = map_option biases (h a)"
proof (induction n arbitrary: h this delta)
  case 0
  then show ?case by simp
next
  case (Suc n)
  show ?case
  proof (cases "back_propogate_body h this delta")
    case (Inl e)
    with Suc.prems show ?thesis by simp
  next
    case (Inr r)
    show ?thesis
    proof (cases r)
      case None
      with Inr Suc.prems show ?thesis by simp
    next
      case (Some x)
      obtain h1 p pd where x: "x = (h1, p, pd)" by (cases x)
      with Inr Some Suc.prems have "Layer_back_propogate n h1 p pd = Some (Inr h')" by simp
      then have "map_option biases (h' a) = map_option biases (h1 a)" by (rule Suc.IH)
      moreover have "map_option biases (h1 a) = map_option biases (h a)"
        using Inr Some x back_propogate_body_biases by blast
      ultimately show ?thesis by simp
    qed
  qed
qed

lemma init_weights_biases:
  "init_weights dis h this = Inr h' \<Longrightarrow> map_option biases (h' a) = map_option biases (h a)"
  by (auto simp: init_weights_def ebind_eq_Inr deref_eq_Inr split: if_splits)

lemma init_weights_terminal:
  "h this = Some T \<Longrightarrow> next_l T = None \<Longrightarrow> init_weights dis h this = Inr h"
  by (simp add: init_weights_def deref_Some)

lemma init_loop_biases:
  "init_loop diss k h as = Inr h' \<Longrightarrow> map_option biases (h' a) = map_option biases (h a)"
proof (induction as arbitrary: k h)
  case Nil
  then show ?case by simp
next
  case (Cons b as)
  then obtain h1 where "init_weights (diss k) h b = Inr h1" "init_loop diss (Suc k) h1 as = Inr h'"
    by (auto simp: ebind_eq_Inr)
  then show ?case
    using Cons.IH init_weights_biases by metis
qed

text \<open>
  Claim C6, in the form the code satisfies. The bias vector of a layer is filled with
  \<open>in_size\<close> zeros by the constructor; \<open>init\<close> (that is \<open>init_weights\<close> on every layer)
  leaves every bias vector as it is, and so does \<open>back_propogate\<close>, which writes weights
  only.
\<close>
theorem biases_never_trained:
  "biases (Layer_new isz osz wsz bsz) = replicate (unat isz) 0 \<and>
   (CNN_init diss h c = Inr h' \<longrightarrow> map_option biases (h' a) = map_option biases (h a)) \<and>
   (Layer_back_propogate n h this delta = Some (Inr h') \<longrightarrow>
      map_option biases (h' a) = map_option biases (h a))"
  using init_loop_biases Layer_back_propogate_biases
  by (simp add: Layer_new_def CNN_init_def)

text \<open>
  Claim C6 as stated asks for an execution in which \<open>back_propogate\<close> changes a bias
  value. There is none: no run of \<open>back_propogate\<close> that returns has changed the bias
  vector of any layer.
\<close>
theorem biases_mutated_counterexample:
  "\<not> (\<exists>n h this delta h' a L L'.
        Layer_back_propogate n h this delta = Some (Inr h') \<and>
        h a = Some L \<and> h' a = Some L' \<and> biases L' \<noteq> biases L)"
proof
  assume "\<exists>n h this delta h' a L L'.
        Layer_back_propogate n h this delta = Some (Inr h') \<and>
        h a = Some L \<and> h' a = Some L' \<and> biases L' \<noteq> biases L"
  then obtain n h this delta h' a L L' where
    r: "Layer_back_propogate n h this delta = Some (Inr h')"
      "h a = Some L" "h' a = Some L'" "biases L' \<noteq> biases L"
    by blast
  from Layer_back_propogate_biases [OF r(1), of a] r(2,3)
  have "biases L' = biases L" by simp
  with r(4) show False by simp
qed

section \<open>The forward pass\<close>
lemma dot_mismatch_iff: "dot a b = Inl ShapeMismatch \<longleftrightarrow> length a \<noteq> length b"
  by (simp add: dot_def)

lemma dot_same_length: "length a = length b \<Longrightarrow> dot a b = Inr (inner_product a b 0)"
  by (simp add: dot_def)

lemma fp_loop_fold:
  assumes "h this = Some T" "h nx = Some N" "nx \<noteq> this"
    "\<forall>i\<in>set is. i < length (weights T) \<and> length (weights T ! i) = length (values_l T) \<and>
        i < length (biases N) \<and> i < length (values_l N)"
  shows "fp_loop h this nx is =
     Inr (h(nx \<mapsto> N\<lparr>values_l :=
        fold (\<lambda>i vs. vs[i := sigmoid (inner_product (weights T ! i) (values_l T) 0 + biases N ! i)])
          is (values_l N)\<rparr>))"
  using assms
proof (induction "is" arbitrary: h N)
  case Nil
  then show ?case by (simp add: map_upd_triv)
next
  case (Cons i "is")
  let ?N = "N\<lparr>values_l := (values_l N)
      [i := sigmoid (inner_product (weights T ! i) (values_l T) 0 + biases N ! i)]\<rparr>"
  let ?h = "h(nx \<mapsto> ?N)"
  have step: "fp_loop h this nx (i # is) = fp_loop ?h this nx is"
    using Cons.prems
    by (simp add: deref_Some elem_less dot_same_length activation_def)
  have "fp_loop ?h this nx is =
     Inr (?h(nx \<mapsto> ?N\<lparr>values_l :=
        fold (\<lambda>i vs. vs[i := sigmoid (inner_product (weights T ! i) (values_l T) 0 + biases ?N ! i)])
          is (values_l ?N)\<rparr>))"
    using Cons.prems by (intro Cons.IH) auto
  then have "fp_loop ?h this nx is =
     Inr (h(nx \<mapsto> N\<lparr>values_l :=
        fold (\<lambda>i vs. vs[i := sigmoid (inner_product (weights T ! i) (values_l T) 0 + biases N ! i)])
          (i # is) (values_l N)\<rparr>))"
    by simp
  with step show ?case by (simp only:)
qed

lemma forward_propogate_body_shape:
  assumes "h this = Some T" "next_l T = Some nx" "nx \<noteq> this" "h nx = Some N"
    "unat (out_size T) \<le> length (weights T)"
    "\<forall>i<unat (out_size T). length (weights T ! i) = length (values_l T)"
    "unat (out_size T) \<le> length (biases N)"
    "unat (out_size T) \<le> length (values_l N)"
  shows "forward_propogate_body h this =
     Inr (Some (h(nx \<mapsto> N\<lparr>values_l :=
        map (\<lambda>i. sigmoid (inner_product (weights T ! i) (values_l T) 0 + biases N ! i))
          [0..<unat (out_size T)] @ drop (unat (out_size T)) (values_l N)\<rparr>), nx))"
proof -
  have "fp_loop h this nx [0..<unat (out_size T)] =
     Inr (h(nx \<mapsto> N\<lparr>values_l :=
        fold (\<lambda>i vs. vs[i := sigmoid (inner_product (weights T ! i) (values_l T) 0 + biases N ! i)])
          [0..<unat (out_size T)] (values_l N)\<rparr>))"
    using assms by (intro fp_loop_fold) auto
  then show ?thesis
    using assms(1,2,8) by (simp add: forward_propogate_body_def deref_Some fold_update_upt)
qed

text \<open>
  Claim C1, in the form the code satisfies. For a layer \<open>this\<close> with a successor \<open>nx\<close>
  (another layer; the rows \<open>weights[i]\<close>, \<open>i < out_size\<close>, exist and are as long as
  \<open>values\<close>; the successor's \<open>biases\<close> and \<open>values\<close> have at least \<open>out_size\<close> entries),
  \<open>forward_propogate\<close> stores
  \<open>sigmoid (dot (weights[i], values) + next->biases[i])\<close> in \<open>next->values[i]\<close> for every
  \<open>i < out_size\<close>, the bias being read from the successor (the layer it biases) and not
  from \<open>this\<close>; it leaves the other entries of \<open>next->values\<close> alone and recurses on
  the successor. \<open>sigmoid x\<close> is \<open>1 / (1 + exp (- x))\<close> by definition.
\<close>
theorem forward_propogate_step:
  assumes "h this = Some T" "next_l T = Some nx" "nx \<noteq> this" "h nx = Some N"
    "unat (out_size T) \<le> length (weights T)"
    "\<forall>i<unat (out_size T). length (weights T ! i) = length (values_l T)"
    "unat (out_size T) \<le> length (biases N)"
    "unat (out_size T) \<le> length (values_l N)"
  shows "\<exists>vs.
     forward_propogate_body h this = Inr (Some (h(nx \<mapsto> N\<lparr>values_l := vs\<rparr>), nx)) \<and>
     Layer_forward_propogate (Suc n) h this =
       Layer_forward_propogate n (h(nx \<mapsto> N\<lparr>values_l := vs\<rparr>)) nx \<and>
     length vs = length (values_l N) \<and>
     (\<forall>i<unat (out_size T).
        dot (weights T ! i) (values_l T) = Inr (inner_product (weights T ! i) (values_l T) 0) \<and>
        vs ! i = sigmoid (inner_product (weights T ! i) (values_l T) 0 + biases N ! i)) \<and>
     (\<forall>i<length (values_l N). unat (out_size T) \<le> i \<longrightarrow> vs ! i = values_l N ! i)"
proof -
  let ?vs = "map (\<lambda>i. sigmoid (inner_product (weights T ! i) (values_l T) 0 + biases N ! i))
          [0..<unat (out_size T)] @ drop (unat (out_size T)) (values_l N)"
  have body: "forward_propogate_body h this = Inr (Some (h(nx \<mapsto> N\<lparr>values_l := ?vs\<rparr>), nx))"
    using assms by (rule forward_propogate_body_shape)
  then have rec: "Layer_forward_propogate (Suc n) h this =
       Layer_forward_propogate n (h(nx \<mapsto> N\<lparr>values_l := ?vs\<rparr>)) nx"
    by simp
  have len: "length ?vs = length (values_l N)"
    using assms(8) by simp
  have new: "\<forall>i<unat (out_size T).
        dot (weights T ! i) (values_l T) = Inr (inner_product (weights T ! i) (values_l T) 0) \<and>
        ?vs ! i = sigmoid (inner_product (weights T ! i) (values_l T) 0 + biases N ! i)"
    using assms(6) by (simp add: dot_same_length nth_append)
  have old: "\<forall>i<length (values_l N). unat (out_size T) \<le> i \<longrightarrow> ?vs ! i = values_l N ! i"
    using assms(8) by (simp add: nth_append)
  show ?thesis
    using body rec len new old by blast
qed

lemma shape_invariant_update:
  assumes "shape_invariant h" "h a = Some N" "length vs = length (values_l N)"
  shows "shape_invariant (h(a \<mapsto> N\<lparr>values_l := vs\<rparr>))"
  unfolding shape_invariant_def
proof (intro allI impI)
  fix b L
  assume b: "(h(a \<mapsto> N\<lparr>values_l := vs\<rparr>)) b = Some L"
  define L0 where "L0 = (if b = a then N else L)"
  have L0: "h b = Some L0" "length (values_l L) = length (values_l L0)"
    "next_l L = next_l L0" "weights L = weights L0" "in_size L = in_size L0"
    "out_size L = out_size L0"
    using b assms(2,3) by (auto simp: L0_def split: if_splits)
  have inv: "length (values_l L0) = unat (in_size L0)"
    "\<And>nx. next_l L0 = Some nx \<Longrightarrow>
           (\<exists>M. h nx = Some M \<and> length (values_l M) = unat (out_size L0)) \<and>
           length (weights L0) = unat (out_size L0) \<and>
           (\<forall>w\<in>set (weights L0). length w = unat (in_size L0))"
    using assms(1) L0(1) unfolding shape_invariant_def by blast+
  have succ: "\<exists>M. (h(a \<mapsto> N\<lparr>values_l := vs\<rparr>)) nx = Some M \<and>
       length (values_l M) = unat (out_size L0)" if "next_l L0 = Some nx" for nx
  proof -
    from inv(2) [OF that] obtain M where "h nx = Some M" "length (values_l M) = unat (out_size L0)"
      by blast
    then show ?thesis
      using assms(2,3) by (cases "nx = a") auto
  qed
  show "length (values_l L) = unat (in_size L) \<and>
        (\<forall>nx. next_l L = Some nx \<longrightarrow>
           (\<exists>N'. (h(a \<mapsto> N\<lparr>values_l := vs\<rparr>)) nx = Some N' \<and>
                 length (values_l N') = unat (out_size L)) \<and>
           length (weights L) = unat (out_size L) \<and>
           (\<forall>w\<in>set (weights L). length w = unat (in_size L)))"
    using L0(2-6) inv succ by simp
qed

lemma fp_loop_invariant:
  assumes "shape_invariant h" "h this = Some T" "next_l T = Some nx"
    "\<forall>i\<in>set is. i < unat (out_size T)"
  shows "fp_loop h this nx is \<noteq> Inl ShapeMismatch \<and>
     (\<forall>h'. fp_loop h this nx is = Inr h' \<longrightarrow> shape_invariant h')"
  using assms
proof (induction "is" arbitrary: h T)
  case Nil
  then show ?case by simp
next
  case (Cons i "is")
  from Cons.prems(1,2,3) obtain N where N: "h nx = Some N"
    and W: "length (weights T) = unat (out_size T)"
      "\<forall>w\<in>set (weights T). length w = unat (in_size T)"
    and V: "length (values_l T) = unat (in_size T)"
    unfolding shape_invariant_def by blast
  have i: "i < length (weights T)" using Cons.prems(4) W(1) by simp
  then have "weights T ! i \<in> set (weights T)" by simp
  then have d: "dot (weights T ! i) (values_l T) =
      Inr (inner_product (weights T ! i) (values_l T) 0)"
    using W(2) V by (simp add: dot_same_length)
  show ?case
  proof (cases "i < length (biases N) \<and> i < length (values_l N)")
    case False
    then show ?thesis
      using Cons.prems(2) N i d by (auto simp: deref_Some elem_def)
  next
    case True
    let ?N = "N\<lparr>values_l := (values_l N)
      [i := activation (inner_product (weights T ! i) (values_l T) 0 + biases N ! i)]\<rparr>"
    let ?h = "h(nx \<mapsto> ?N)"
    have step: "fp_loop h this nx (i # is) = fp_loop ?h this nx is"
      using Cons.prems(2) N i d True by (simp add: deref_Some elem_less)
    have inv: "shape_invariant ?h"
      using Cons.prems(1) N by (intro shape_invariant_update) simp_all
    define T' where "T' = (if this = nx then ?N else T)"
    have T': "?h this = Some T'" "next_l T' = Some nx" "out_size T' = out_size T"
      using Cons.prems(2,3) N by (auto simp: T'_def)
    have rest: "\<forall>k\<in>set is. k < unat (out_size T')"
      using Cons.prems(4) T'(3) by simp
    have "fp_loop ?h this nx is \<noteq> Inl ShapeMismatch \<and>
       (\<forall>h'. fp_loop ?h this nx is = Inr h' \<longrightarrow> shape_invariant h')"
      using inv T'(1,2) rest by (rule Cons.IH)
    with step show ?thesis by simp
  qed
qed

lemma Layer_forward_propogate_invariant:
  "shape_invariant h \<Longrightarrow> Layer_forward_propogate n h this \<noteq> Some (Inl ShapeMismatch)"
proof (induction n arbitrary: h this)
  case 0
  then show ?case by simp
next
  case (Suc n)
  show ?case
  proof (cases "h this")
    case None
    then show ?thesis by (simp add: forward_propogate_body_def deref_def)
  next
    case (Some T)
    show ?thesis
    proof (cases "next_l T")
      case None
      with Some show ?thesis by (simp add: forward_propogate_body_def deref_def)
    next
      case nx: (Some nx)
      have "\<forall>i\<in>set [0..<unat (out_size T)]. i < unat (out_size T)"
        by simp
      with Suc.prems Some nx
      have l: "fp_loop h this nx [0..<unat (out_size T)] \<noteq> Inl ShapeMismatch \<and>
         (\<forall>h'. fp_loop h this nx [0..<unat (out_size T)] = Inr h' \<longrightarrow> shape_invariant h')"
        by (rule fp_loop_invariant)
      show ?thesis
      proof (cases "fp_loop h this nx [0..<unat (out_size T)]")
        case (Inl e)
        with l Some nx show ?thesis by (simp add: forward_propogate_body_def deref_def)
      next
        case (Inr h')
        with l have "shape_invariant h'" by simp
        then have "Layer_forward_propogate n h' nx \<noteq> Some (Inl ShapeMismatch)" by (rule Suc.IH)
        with Inr Some nx show ?thesis by (simp add: forward_propogate_body_def deref_def)
      qed
    qed
  qed
qed

text \<open>
  Claim C8. \<open>dot\<close> fails with \<open>ShapeMismatch\<close> exactly when the two lengths differ; and
  from a store that satisfies the shape invariant, \<open>forward_propogate\<close> does not end in
  \<open>ShapeMismatch\<close> whatever the number \<open>n\<close> of calls it is followed for. (A failing
  \<open>dot\<close> in the \<open>k\<close>-th call would make the result \<open>Some (Inl ShapeMismatch)\<close> for every
  \<open>n \<ge> k\<close>, so this says that no call of \<open>dot\<close> ever takes the failure branch.)
\<close>
theorem dot_never_fails_under_shape_invariant:
  "(dot a b = Inl ShapeMismatch \<longleftrightarrow> length a \<noteq> length b) \<and>
   (shape_invariant h \<longrightarrow> Layer_forward_propogate n h this \<noteq> Some (Inl ShapeMismatch))"
  using dot_mismatch_iff Layer_forward_propogate_invariant by blast

section \<open>Wiring the chain\<close>
lemma add_tail_allocated:
  assumes "h this = Some T" "h layer = Some L"
  shows "add_tail h this layer =
     Inr (if layer = this then h(this \<mapsto> T\<lparr>next_l := Some layer, prev := Some this\<rparr>)
          else h(this \<mapsto> T\<lparr>next_l := Some layer\<rparr>, layer \<mapsto> L\<lparr>prev := Some this\<rparr>))"
  using assms by (auto simp: add_tail_def deref_def Let_def)

text \<open>
  Claim C7, in the form the code satisfies. \<open>add_tail\<close> checks nothing and never fails
  on two existing layers: whether or not \<open>this\<close> already has a successor, it sets
  \<open>this->next\<close> to the given layer and that layer's \<open>prev\<close> to \<open>this\<close>, overwriting what
  was there, and changes nothing else (a former successor keeps its \<open>prev\<close>).
\<close>
theorem add_tail_overwrites:
  "h this = Some T \<and> h layer = Some L \<and> layer \<noteq> this \<longrightarrow>
   add_tail h this layer =
     Inr (h(this \<mapsto> T\<lparr>next_l := Some layer\<rparr>, layer \<mapsto> L\<lparr>prev := Some this\<rparr>))"
  by (simp add: add_tail_allocated)

text \<open>
  Claim C9. On a layer without successor \<open>forward_propogate\<close> returns at once, and on a
  layer without predecessor \<open>back_propogate\<close> returns at once, whatever \<open>delta\<close> is; in
  both cases the store is returned as it was, so no activation, weight or bias of any
  layer has changed.
\<close>
theorem no_op_terminal:
  "(h this = Some T \<and> next_l T = None \<longrightarrow>
      forward_propogate_body h this = Inr None \<and>
      Layer_forward_propogate (Suc n) h this = Some (Inr h)) \<and>
   (h this = Some T \<and> prev T = None \<longrightarrow>
      back_propogate_body h this delta = Inr None \<and>
      Layer_back_propogate (Suc n) h this delta = Some (Inr h))"
  by (simp add: forward_propogate_body_def back_propogate_body_def deref_Some)

text \<open>
  Claim C5. For a layer with a predecessor and at least one neuron (shapes as in the
  data model), the \<open>prev_delta\<close> handed to the recursive call is computed from row
  \<open>in_size - 1\<close> of the predecessor's weights and from \<open>delta[in_size - 1]\<close> alone: any
  other \<open>delta'\<close> with the same last entry yields the same \<open>prev_delta\<close>. What the
  iterations for the earlier neurons wrote into \<open>prev_delta\<close> is overwritten, not
  accumulated.
\<close>
theorem prev_delta_only_last_neuron:
  assumes "h this = Some T" "prev T = Some p" "h p = Some P"
    "unat (in_size T) \<le> length (weights P)"
    "\<forall>i<unat (in_size T). length (weights P ! i) = unat (in_size P)"
    "unat (in_size P) \<le> length (values_l P)"
    "unat (in_size T) \<le> length delta" "unat (in_size T) \<le> length delta'"
    "0 < unat (in_size T)"
    "delta' ! (unat (in_size T) - 1) = delta ! (unat (in_size T) - 1)"
  shows "\<exists>h1 h2 pd.
     back_propogate_body h this delta = Inr (Some (h1, p, pd)) \<and>
     back_propogate_body h this delta' = Inr (Some (h2, p, pd)) \<and>
     pd = map (\<lambda>j. values_l P ! j * (1 - values_l P ! j) *
                  (weights P ! (unat (in_size T) - 1) ! j +
                     (1 / 10 * delta ! (unat (in_size T) - 1) * values_l P ! j)) *
                  delta ! (unat (in_size T) - 1))
            [0..<unat (in_size P)]"
proof -
  let ?pd = "\<lambda>d. map (\<lambda>j. values_l P ! j * (1 - values_l P ! j) *
                  (weights P ! (unat (in_size T) - 1) ! j +
                     (1 / 10 * d ! (unat (in_size T) - 1) * values_l P ! j)) *
                  d ! (unat (in_size T) - 1))
            [0..<unat (in_size P)]"
  from back_propogate_body_shape [OF assms(1-7)] assms(9)
  obtain W1 where 1: "back_propogate_body h this delta =
      Inr (Some (h(p \<mapsto> P\<lparr>weights := W1\<rparr>), p, ?pd delta))"
    by auto
  from back_propogate_body_shape [OF assms(1-6) assms(8)] assms(9)
  obtain W2 where 2: "back_propogate_body h this delta' =
      Inr (Some (h(p \<mapsto> P\<lparr>weights := W2\<rparr>), p, ?pd delta'))"
    by auto
  have "?pd delta' = ?pd delta"
    using assms(10) by simp
  with 1 2 show ?thesis by simp
qed

lemma add_all_append:
  "add_all h c (as @ bs) = ebind (add_all h c as) (\<lambda>(h', c'). add_all h' c' bs)"
proof (induction as arbitrary: h c)
  case Nil
  then show ?case by simp
next
  case (Cons a as)
  show ?case
  proof (cases "CNN_add h c a")
    case (Inl e)
    then show ?thesis by simp
  next
    case (Inr r)
    then show ?thesis using Cons.IH by (cases r) simp
  qed
qed

lemma add_all_distinct:
  assumes "distinct as" "\<forall>a\<in>set as. \<exists>L. h a = Some L"
  shows "\<exists>h'. add_all h \<lparr>layers = []\<rparr> as = Inr (h', \<lparr>layers = as\<rparr>) \<and>
     (\<forall>a. (\<exists>L. h a = Some L) \<longrightarrow> (\<exists>L. h' a = Some L)) \<and>
     (\<forall>i. Suc i < length as \<longrightarrow>
        (\<exists>L. h' (as ! i) = Some L \<and> next_l L = Some (as ! Suc i)) \<and>
        (\<exists>M. h' (as ! Suc i) = Some M \<and> prev M = Some (as ! i)))"
  using assms
proof (induction as rule: rev_induct)
  case Nil
  then show ?case by simp
next
  case (snoc b as)
  from snoc.prems have d: "distinct as" "b \<notin> set as" and al: "\<forall>a\<in>set as. \<exists>L. h a = Some L"
    and b: "\<exists>L. h b = Some L"
    by auto
  from snoc.IH [OF d(1) al] obtain h1 where h1:
    "add_all h \<lparr>layers = []\<rparr> as = Inr (h1, \<lparr>layers = as\<rparr>)"
    "\<forall>a. (\<exists>L. h a = Some L) \<longrightarrow> (\<exists>L. h1 a = Some L)"
    "\<forall>i. Suc i < length as \<longrightarrow>
        (\<exists>L. h1 (as ! i) = Some L \<and> next_l L = Some (as ! Suc i)) \<and>
        (\<exists>M. h1 (as ! Suc i) = Some M \<and> prev M = Some (as ! i))"
    by blast
  show ?case
  proof (cases "as = []")
    case True
    then show ?thesis
      using b by (simp add: CNN_add_def tail_def CNN_empty_def)
  next
    case False
    let ?t = "last as"
    have t: "?t \<in> set as" "?t \<noteq> b" "?t = as ! (length as - 1)"
      using False d(2) by (auto simp: last_conv_nth)
    obtain T where T: "h1 ?t = Some T" using t(1) al h1(2) by blast
    obtain L where L: "h1 b = Some L" using b h1(2) by blast
    let ?h = "h1(?t \<mapsto> T\<lparr>next_l := Some b\<rparr>, b \<mapsto> L\<lparr>prev := Some ?t\<rparr>)"
    have "add_tail h1 ?t b = Inr ?h"
      using add_tail_allocated [OF T L] t(2) by simp
    then have "CNN_add h1 \<lparr>layers = as\<rparr> b = Inr (?h, \<lparr>layers = as @ [b]\<rparr>)"
      using False by (simp add: CNN_add_def tail_def CNN_empty_def last_conv_nth)
    then have run: "add_all h \<lparr>layers = []\<rparr> (as @ [b]) = Inr (?h, \<lparr>layers = as @ [b]\<rparr>)"
      using h1(1) by (simp add: add_all_append)
    have alloc: "\<forall>a. (\<exists>L. h a = Some L) \<longrightarrow> (\<exists>L. ?h a = Some L)"
      using h1(2) by simp
    have links: "(\<exists>L. ?h ((as @ [b]) ! i) = Some L \<and> next_l L = Some ((as @ [b]) ! Suc i)) \<and>
        (\<exists>M. ?h ((as @ [b]) ! Suc i) = Some M \<and> prev M = Some ((as @ [b]) ! i))"
      if i: "Suc i < length (as @ [b])" for i
    proof (cases "Suc i < length as")
      case True
      then have ne: "as ! i \<noteq> ?t" "as ! i \<noteq> b" "as ! Suc i \<noteq> b"
        using d t(3) by (auto simp: nth_eq_iff_index_eq)
      from h1(3) True obtain L1 M1 where
        lm: "h1 (as ! i) = Some L1" "next_l L1 = Some (as ! Suc i)"
          "h1 (as ! Suc i) = Some M1" "prev M1 = Some (as ! i)"
        by blast
      have "\<exists>M. ?h (as ! Suc i) = Some M \<and> prev M = Some (as ! i)"
        using lm(3,4) ne(3) T by (cases "as ! Suc i = ?t") auto
      then show ?thesis
        using True lm(1,2) ne by (simp add: nth_append)
    next
      case False
      with i have "Suc i = length as" by simp
      then have i': "i = length as - 1" "i < length as" "length as = Suc i" by simp_all
      have "(as @ [b]) ! Suc i = b"
        by (simp only: i'(3) [symmetric] nth_append_length)
      moreover have "(as @ [b]) ! i = as ! i"
        using i'(2) by (simp add: nth_append)
      moreover have "as ! i = ?t"
        using t(3) i'(1) by (simp only:)
      ultimately have "(as @ [b]) ! i = ?t" "(as @ [b]) ! Suc i = b"
        by simp_all
      then show ?thesis
        using t(2) by simp
    qed
    show ?thesis
      using run alloc links by blast
  qed
qed

lemma chain_distinct:
  assumes "distinct as" "as \<noteq> []"
    "\<forall>i. Suc i < length as \<longrightarrow> (\<exists>L. h (as ! i) = Some L \<and> next_l L = Some (as ! Suc i))"
  shows "chain (length as) h (hd as) (last as) = Some as"
  using assms
proof (induction as)
  case Nil
  then show ?case by simp
next
  case (Cons a as)
  show ?case
  proof (cases "as = []")
    case True
    then show ?thesis by simp
  next
    case False
    then have ne: "a \<noteq> last as"
      using Cons.prems(1) last_in_set by fastforce
    from Cons.prems(3) [rule_format, of 0] False
    obtain L where L: "h a = Some L" "next_l L = Some (hd as)"
      by (auto simp: hd_conv_nth)
    have "\<forall>i. Suc i < length as \<longrightarrow>
        (\<exists>L. h (as ! i) = Some L \<and> next_l L = Some (as ! Suc i))"
      using Cons.prems(3) by (metis Suc_less_eq length_Cons nth_Cons_Suc)
    then have "chain (length as) h (hd as) (last as) = Some as"
      using Cons.IH Cons.prems(1) False by simp
    then show ?thesis
      using False ne L by simp
  qed
qed

text \<open>
  Claim C10, in the form the code satisfies. After adding \<open>N \<ge> 1\<close> pairwise distinct
  existing layers to an empty network, \<open>layers\<close> is the list of the layers added,
  \<open>head()\<close> is the first and \<open>tail()\<close> the last of them, every layer's \<open>next\<close> is the
  layer added after it and every layer's \<open>prev\<close> the layer added before it, and the chain
  from head to tail visits exactly the \<open>N\<close> layers, in order.
\<close>
theorem append_distinct_layers_chain:
  assumes "as \<noteq> []" "distinct as" "\<forall>a\<in>set as. \<exists>L. h a = Some L"
  shows "\<exists>h' c'. add_all h \<lparr>layers = []\<rparr> as = Inr (h', c') \<and>
     layers c' = as \<and> head c' = Some (hd as) \<and> tail c' = Some (last as) \<and>
     (\<forall>i. Suc i < length as \<longrightarrow>
        map_option next_l (h' (as ! i)) = Some (Some (as ! Suc i)) \<and>
        map_option prev (h' (as ! Suc i)) = Some (Some (as ! i))) \<and>
     chain (length as) h' (hd as) (last as) = Some as"
proof -
  from add_all_distinct [OF assms(2,3)] obtain h' where r:
    "add_all h \<lparr>layers = []\<rparr> as = Inr (h', \<lparr>layers = as\<rparr>)"
    "\<forall>i. Suc i < length as \<longrightarrow>
        (\<exists>L. h' (as ! i) = Some L \<and> next_l L = Some (as ! Suc i)) \<and>
        (\<exists>M. h' (as ! Suc i) = Some M \<and> prev M = Some (as ! i))"
    by blast
  have ends: "head \<lparr>layers = as\<rparr> = Some (hd as)" "tail \<lparr>layers = as\<rparr> = Some (last as)"
    using assms(1) by (simp_all add: head_hd tail_last)
  have links: "\<forall>i. Suc i < length as \<longrightarrow>
        map_option next_l (h' (as ! i)) = Some (Some (as ! Suc i)) \<and>
        map_option prev (h' (as ! Suc i)) = Some (Some (as ! i))"
    using r(2) by fastforce
  have "chain (length as) h' (hd as) (last as) = Some as"
    using assms(2,1) r(2) by (intro chain_distinct) blast+
  with r(1) ends links show ?thesis by simp
qed

lemmas ex_defs = ex_in_def ex_out0_def ex_out_def ex_heap0_def ex_heap_def ex_net_def
  cex_bias_in_def cex_bias_out_def cex_bias_heap_def Layer_new_def

lemmas eval_defs = forward_propogate_body_def back_propogate_body_def deref_def elem_def dot_def
  inner_product_def activation_def sigmoid_def CNN_back_propogate_def tail_def head_def
  CNN_empty_def

lemma upt_words: "[0..<unat (1::32 word)] = [0]" "[0..<unat (2::32 word)] = [0, 1]"
  "[0..<1] = [0]" "[0..<2] = [0, 1]"
  by (simp_all add: upt_rec)

lemma all_less_2: "(\<forall>i<2::nat. P i) \<longleftrightarrow> P 0 \<and> P 1"
  by (auto simp: less_2_cases_iff)

lemma list_of_length_2: "length xs = 2 \<Longrightarrow> xs = [xs ! 0, xs ! 1]"
  by (cases xs; cases "tl xs") auto

text \<open>
  Claim C1 as stated adds the bias stored on the upstream layer. On \<open>cex_bias_heap\<close>
  (upstream bias 1, downstream bias 0, weight 0, input 0) the code stores
  \<open>sigmoid (0 + 0) = 1/2\<close> in the successor; the claim's formula gives
  \<open>sigmoid (0 + 1)\<close>, which is not \<open>1/2\<close>.
\<close>
theorem forward_bias_counterexample:
  "forward_propogate_body cex_bias_heap 0 =
     Inr (Some (cex_bias_heap(1 \<mapsto> cex_bias_out\<lparr>values_l := [1 / 2]\<rparr>), 1)) \<and>
   dot (weights cex_bias_in ! 0) (values_l cex_bias_in) = Inr 0 \<and>
   sigmoid (0 + biases cex_bias_in ! 0) \<noteq> 1 / 2"
  by (simp add: ex_defs eval_defs upt_words)

text \<open>Claim C1 as amended, at \<open>ex_heap0\<close>: both outputs become \<open>sigmoid 0 = 1/2\<close>.\<close>
theorem forward_propogate_step_witness:
  "forward_propogate_body ex_heap0 0 = Inr (Some (ex_heap, 1)) \<and>
   Layer_forward_propogate 2 ex_heap0 0 = Layer_forward_propogate 1 ex_heap 1"
proof -
  have hyps: "ex_heap0 0 = Some ex_in" "next_l ex_in = Some 1" "(1::nat) \<noteq> 0"
    "ex_heap0 1 = Some ex_out0"
    "unat (out_size ex_in) \<le> length (weights ex_in)"
    "\<forall>i<unat (out_size ex_in). length (weights ex_in ! i) = length (values_l ex_in)"
    "unat (out_size ex_in) \<le> length (biases ex_out0)"
    "unat (out_size ex_in) \<le> length (values_l ex_out0)"
    by (simp_all add: ex_defs all_less_2)
  from forward_propogate_step [OF hyps, of 1]
  obtain vs where r:
    "forward_propogate_body ex_heap0 0 = Inr (Some (ex_heap0(1 \<mapsto> ex_out0\<lparr>values_l := vs\<rparr>), 1))"
    "Layer_forward_propogate (Suc 1) ex_heap0 0 =
       Layer_forward_propogate 1 (ex_heap0(1 \<mapsto> ex_out0\<lparr>values_l := vs\<rparr>)) 1"
    "length vs = length (values_l ex_out0)"
    "\<forall>i<unat (out_size ex_in).
        vs ! i = sigmoid (inner_product (weights ex_in ! i) (values_l ex_in) 0 + biases ex_out0 ! i)"
    by blast
  have v: "vs ! 0 = 1 / 2" "vs ! 1 = 1 / 2"
    using r(4) by (simp_all add: ex_defs all_less_2 inner_product_def sigmoid_def)
  have "length vs = 2"
    using r(3) by (simp add: ex_defs)
  then have "vs = [vs ! 0, vs ! 1]"
    by (rule list_of_length_2)
  with v have "vs = [1 / 2, 1 / 2]"
    by metis
  then have "ex_heap0(1 \<mapsto> ex_out0\<lparr>values_l := vs\<rparr>) = ex_heap"
    by (simp add: ex_defs)
  with r(1,2) show ?thesis by (simp add: numeral_2_eq_2)
qed

lemmas ex_defs2 = ex_trained_def cex_labels_trained_def cex_topology_heap_def fresh_heap_def

lemma Layer_back_propogate_numeral:
  "Layer_back_propogate (numeral k) h this delta =
     (case back_propogate_body h this delta of
        Inl e \<Rightarrow> Some (Inl e)
      | Inr None \<Rightarrow> Some (Inr h)
      | Inr (Some (h', p, pd)) \<Rightarrow> Layer_back_propogate (pred_numeral k) h' p pd)"
  by (simp add: numeral_eq_Suc)

lemma ex_back_hyps:
  "ex_heap 1 = Some ex_out" "prev ex_out = Some 0" "ex_heap 0 = Some ex_in"
  "unat (in_size ex_out) \<le> length (weights ex_in)"
  "\<forall>i<unat (in_size ex_out). length (weights ex_in ! i) = unat (in_size ex_in)"
  "unat (in_size ex_in) \<le> length (values_l ex_in)"
  "unat (in_size ex_out) \<le> length [1, 2 :: real]"
  "unat (in_size ex_out) \<le> length [7, 2 :: real]"
  "0 < unat (in_size ex_out)"
  "[7, 2 :: real] ! (unat (in_size ex_out) - 1) = [1, 2] ! (unat (in_size ex_out) - 1)"
  by (simp_all add: ex_defs all_less_2)

lemma ex_back_body:
  "back_propogate_body ex_heap 1 [1, 2] = Inr (Some (ex_trained, 0, [1 / 20]))"
  by (simp add: ex_defs ex_defs2 eval_defs upt_words)

lemma ex_trained_head: "ex_trained 0 = Some (ex_in\<lparr>weights := [[1 / 20], [1 / 10]]\<rparr>)"
  "prev (ex_in\<lparr>weights := [[1 / 20], [1 / 10]]\<rparr>) = None"
  by (simp_all add: ex_defs ex_defs2)

lemma ex_back_run: "Layer_back_propogate 2 ex_heap 1 [1, 2] = Some (Inr ex_trained)"
proof -
  have "back_propogate_body ex_trained 0 [1 / 20] = Inr None"
    by (simp add: back_propogate_body_def deref_def ex_trained_head)
  then show ?thesis
    using ex_back_body by (simp add: Layer_back_propogate_numeral)
qed

text \<open>Claim C2 at \<open>ex_heap\<close>, output layer, \<open>delta = [1, 2]\<close>: the weights \<open>[[0], [0]]\<close>
  become \<open>[[1/20], [1/10]]\<close> and \<open>prev_delta = [1/4 * 1/10 * 2] = [1/20]\<close>.\<close>
theorem back_propogate_step_witness:
  "back_propogate_body ex_heap 1 [1, 2] = Inr (Some (ex_trained, 0, [1 / 20])) \<and>
   Layer_back_propogate 2 ex_heap 1 [1, 2] = Layer_back_propogate 1 ex_trained 0 [1 / 20]"
proof -
  from back_propogate_step [OF ex_back_hyps(1-7), of 1]
  obtain W' pd where r:
    "back_propogate_body ex_heap 1 [1, 2] =
       Inr (Some (ex_heap(0 \<mapsto> ex_in\<lparr>weights := W'\<rparr>), 0, pd))"
    "Layer_back_propogate (Suc 1) ex_heap 1 [1, 2] =
       Layer_back_propogate 1 (ex_heap(0 \<mapsto> ex_in\<lparr>weights := W'\<rparr>)) 0 pd"
    by blast
  from r(1) ex_back_body have "ex_heap(0 \<mapsto> ex_in\<lparr>weights := W'\<rparr>) = ex_trained" "pd = [1 / 20]"
    by simp_all
  with r(2) ex_back_body show ?thesis
    by (simp add: Layer_back_propogate_numeral)
qed

text \<open>Claim C5 at \<open>ex_heap\<close>, whose output layer has 2 neurons: \<open>delta = [1, 2]\<close> and
  \<open>delta = [7, 2]\<close> give the same \<open>prev_delta = [1/20]\<close>.\<close>
theorem prev_delta_only_last_neuron_witness:
  "\<exists>h1 h2. back_propogate_body ex_heap 1 [1, 2] = Inr (Some (h1, 0, [1 / 20])) \<and>
     back_propogate_body ex_heap 1 [7, 2] = Inr (Some (h2, 0, [1 / 20]))"
proof -
  from prev_delta_only_last_neuron [OF ex_back_hyps(1-6) ex_back_hyps(7-10)]
  obtain h1 h2 pd where r:
    "back_propogate_body ex_heap 1 [1, 2] = Inr (Some (h1, 0, pd))"
    "back_propogate_body ex_heap 1 [7, 2] = Inr (Some (h2, 0, pd))"
    by blast
  from r(1) ex_back_body have "pd = [1 / 20]" by simp
  with r show ?thesis by blast
qed

text \<open>Claim C3 at \<open>ex_heap\<close> with the labels \<open>[1, 0]\<close>: the initial delta is
  \<open>[1/8, -1/8]\<close>.\<close>
theorem CNN_back_propogate_initial_delta_witness:
  "CNN_back_propogate 2 ex_heap ex_net [1, 0] =
     Layer_back_propogate 2 ex_heap 1 [1 / 8, - 1 / 8]"
proof -
  have hyps: "layers ex_net \<noteq> []" "ex_heap (last (layers ex_net)) = Some ex_out"
    "length [1, 0 :: real] = unat (in_size ex_out)"
    "unat (in_size ex_out) \<le> length (values_l ex_out)"
    by (simp_all add: ex_defs)
  from CNN_back_propogate_initial_delta
    [where c = ex_net and h = ex_heap and T = ex_out and labels = "[1, 0]" and n = 2, OF hyps]
  show ?thesis
    by (simp add: ex_defs upt_words)
qed

text \<open>
  Claim C4 as stated fails: on \<open>ex_heap\<close>, whose tail layer has 2 neurons, the call with
  the 3 labels \<open>[1, 0, 9]\<close> returns normally and has updated the weights \<open>[[0], [0]]\<close>
  of the first layer to \<open>[[1/160], [-1/160]]\<close>.
\<close>
theorem labels_length_counterexample:
  "length [1, 0, 9 :: real] \<noteq> unat (in_size ex_out) \<and>
   tail ex_net = Some 1 \<and> ex_heap 1 = Some ex_out \<and>
   CNN_back_propogate 2 ex_heap ex_net [1, 0, 9] = Some (Inr cex_labels_trained) \<and>
   map_option weights (ex_heap 0) = Some [[0], [0]] \<and>
   map_option weights (cex_labels_trained 0) = Some [[1 / 160], [- 1 / 160]]"
  by (simp add: ex_defs ex_defs2 eval_defs upt_words Layer_back_propogate_numeral)

text \<open>Claim C4 as amended, at the same call.\<close>
theorem CNN_back_propogate_no_length_check_witness:
  "CNN_back_propogate 2 ex_heap ex_net [1, 0, 9] \<noteq> Some (Inl ShapeMismatch) \<and>
   CNN_back_propogate 2 ex_heap ex_net [1, 0, 9] = CNN_back_propogate 2 ex_heap ex_net [1, 0]"
proof -
  have hyp: "tail ex_net = Some 1 \<and> ex_heap 1 = Some ex_out \<and>
      unat (in_size ex_out) \<le> length [1, 0, 9 :: real]"
    by (simp add: ex_defs tail_def CNN_empty_def)
  have "take (unat (in_size ex_out)) [1, 0, 9 :: real] = [1, 0]"
    by (simp add: ex_defs)
  with CNN_back_propogate_no_length_check [of 2 ex_heap ex_net "[1, 0, 9]" 1 ex_out] hyp
  show ?thesis by metis
qed

lemma ex_init_run:
  "CNN_init (\<lambda>k j. 1 / 2) ex_heap0 ex_net =
     Inr (ex_heap0(0 \<mapsto> ex_in\<lparr>weights := [[1 / 2], [1 / 2]]\<rparr>))"
  by (simp add: CNN_init_def init_weights_def resize_def deref_def elem_def ex_defs upt_words)

text \<open>Claim C6 as amended, at the backward pass on \<open>ex_heap\<close> with \<open>delta = [1, 2]\<close>.\<close>
theorem biases_never_trained_witness:
  "CNN_init (\<lambda>k j. 1 / 2) ex_heap0 ex_net =
     Inr (ex_heap0(0 \<mapsto> ex_in\<lparr>weights := [[1 / 2], [1 / 2]]\<rparr>)) \<and>
   map_option biases ((ex_heap0(0 \<mapsto> ex_in\<lparr>weights := [[1 / 2], [1 / 2]]\<rparr>)) 0) =
     map_option biases (ex_heap0 0) \<and>
   Layer_back_propogate 2 ex_heap 1 [1, 2] = Some (Inr ex_trained) \<and>
   map_option biases (ex_trained 0) = map_option biases (ex_heap 0)"
  using biases_never_trained [of 1 2 0 0 "\<lambda>k j. 1 / 2" ex_heap0 ex_net
      "ex_heap0(0 \<mapsto> ex_in\<lparr>weights := [[1 / 2], [1 / 2]]\<rparr>)" 0 0 0 "[]"]
    biases_never_trained [of 1 2 0 0 "\<lambda>k j. 0" ex_heap ex_net ex_trained 0 2 1 "[1, 2]"]
    ex_init_run ex_back_run
  by simp

text \<open>
  Claim C7 as stated fails: in \<open>cex_topology_heap\<close> layer 0 already has the successor 1;
  \<open>add_tail\<close> of layer 2 on layer 0 returns normally, and the successor of layer 0 is
  now layer 2.
\<close>
theorem add_tail_counterexample:
  "map_option next_l (cex_topology_heap 0) = Some (Some 1) \<and>
   add_tail cex_topology_heap 0 2 =
     Inr (cex_topology_heap(0 \<mapsto> ex_in\<lparr>next_l := Some 2\<rparr>,
            2 \<mapsto> (Layer_new 2 1 0 0)\<lparr>prev := Some 0\<rparr>))"
  by (simp add: ex_defs ex_defs2 add_tail_def deref_def)

text \<open>Claim C7 as amended, at the same call, on a layer that has a successor.\<close>
theorem add_tail_overwrites_witness:
  "next_l ex_in = Some 1 \<and>
   add_tail cex_topology_heap 0 2 =
     Inr (cex_topology_heap(0 \<mapsto> ex_in\<lparr>next_l := Some 2\<rparr>,
            2 \<mapsto> (Layer_new 2 1 0 0)\<lparr>prev := Some 0\<rparr>))"
  using add_tail_overwrites [of cex_topology_heap 0 ex_in 2 "Layer_new 2 1 0 0"]
  by (simp add: ex_defs ex_defs2)

lemma ex_shape_invariant: "shape_invariant ex_heap0"
  by (simp add: shape_invariant_def ex_defs)

lemma Layer_forward_propogate_numeral:
  "Layer_forward_propogate (numeral k) h this =
     (case forward_propogate_body h this of
        Inl e \<Rightarrow> Some (Inl e)
      | Inr None \<Rightarrow> Some (Inr h)
      | Inr (Some (h', nx)) \<Rightarrow> Layer_forward_propogate (pred_numeral k) h' nx)"
  by (simp add: numeral_eq_Suc)

lemma replicate_2: "replicate 2 x = [x, x]"
  by (simp add: numeral_2_eq_2)

lemma ex_forward_run: "Layer_forward_propogate 2 ex_heap0 0 = Some (Inr ex_heap)"
  by (simp add: Layer_forward_propogate_numeral ex_defs eval_defs upt_words replicate_2)

text \<open>Claim C8 at \<open>ex_heap0\<close>, which satisfies the invariant and on which the forward
  pass returns after two calls; and a call of \<open>dot\<close> on vectors of lengths 2 and 1 does
  fail.\<close>
theorem dot_never_fails_under_shape_invariant_witness:
  "dot [1, 1] [0] = Inl ShapeMismatch \<and> shape_invariant ex_heap0 \<and>
   Layer_forward_propogate 2 ex_heap0 0 \<noteq> Some (Inl ShapeMismatch) \<and>
   Layer_forward_propogate 2 ex_heap0 0 = Some (Inr ex_heap)"
  using dot_never_fails_under_shape_invariant [of "[1, 1]" "[0]" ex_heap0 2 0] ex_shape_invariant
    ex_forward_run
  by simp

text \<open>Claim C9 at \<open>ex_heap\<close>: forward on the output layer, backward on the input layer.\<close>
theorem no_op_terminal_witness:
  "Layer_forward_propogate 1 ex_heap 1 = Some (Inr ex_heap) \<and>
   Layer_back_propogate 1 ex_heap 0 [1, 2] = Some (Inr ex_heap)"
  using no_op_terminal [of ex_heap 1 ex_out 0 "[1, 2]"]
    no_op_terminal [of ex_heap 0 ex_in 0 "[1, 2]"]
  by (simp add: ex_defs)

text \<open>
  Claim C10 as stated (every sequence of calls) fails when a layer is added twice: after
  \<open>add\<close> of the layers 0, 1, 0, 2 the \<open>next\<close> pointer of the first layer added is
  layer 2, not layer 1, the layer added immediately after it.
\<close>
theorem append_repeated_layer_counterexample:
  "map_sum id (\<lambda>(h', c'). (layers c', map_option next_l (h' 0)))
     (add_all fresh_heap \<lparr>layers = []\<rparr> [0, 1, 0, 2]) = Inr ([0, 1, 0, 2], Some (Some 2)) \<and>
   [0, 1, 0, 2 :: nat] ! 1 \<noteq> 2"
  by (simp add: ex_defs ex_defs2 CNN_add_def add_tail_def deref_def tail_def CNN_empty_def)

text \<open>Claim C10 as amended, at the three layers of \<open>main\<close>.\<close>
theorem append_distinct_layers_chain_witness:
  "\<exists>h'. add_all fresh_heap \<lparr>layers = []\<rparr> [0, 1, 2] = Inr (h', \<lparr>layers = [0, 1, 2]\<rparr>) \<and>
     map_option next_l (h' 0) = Some (Some 1) \<and> map_option next_l (h' 1) = Some (Some 2) \<and>
     map_option prev (h' 1) = Some (Some 0) \<and> map_option prev (h' 2) = Some (Some 1) \<and>
     chain 3 h' 0 2 = Some [0, 1, 2]"
proof -
  have hyps: "[0, 1, 2 :: nat] \<noteq> []" "distinct [0, 1, 2 :: nat]"
    "\<forall>a\<in>set [0, 1, 2 :: nat]. \<exists>L. fresh_heap a = Some L"
    by (simp_all add: ex_defs2)
  from append_distinct_layers_chain [OF hyps]
  obtain h' c' where r: "add_all fresh_heap \<lparr>layers = []\<rparr> [0, 1, 2] = Inr (h', c')"
    "layers c' = [0, 1, 2]"
    "\<forall>i. Suc i < length [0, 1, 2 :: nat] \<longrightarrow>
        map_option next_l (h' ([0, 1, 2] ! i)) = Some (Some ([0, 1, 2] ! Suc i)) \<and>
        map_option prev (h' ([0, 1, 2] ! Suc i)) = Some (Some ([0, 1, 2] ! i))"
    "chain (length [0, 1, 2 :: nat]) h' (hd [0, 1, 2]) (last [0, 1, 2]) = Some [0, 1, 2]"
    by blast
  from r(3) [rule_format, of 0] r(3) [rule_format, of 1]
  have links: "map_option next_l (h' 0) = Some (Some 1)" "map_option next_l (h' 1) = Some (Some 2)"
    "map_option prev (h' 1) = Some (Some 0)" "map_option prev (h' 2) = Some (Some 1)"
    by simp_all
  have "length [0, 1, 2 :: nat] = 3" "hd [0, 1, 2 :: nat] = 0" "last [0, 1, 2 :: nat] = 2"
    by simp_all
  with r(4) have c: "chain 3 h' 0 2 = Some [0, 1, 2]"
    by (simp only:)
  have "c' = \<lparr>layers = [0, 1, 2]\<rparr>"
    using r(2) by (cases c') simp
  with r(1) links c show ?thesis by blast
qed

end
